theory Spec2Isabelle
  imports Main
begin

section \<open>The Gomoku engine of \<^verbatim>\<open>src/gomoku.py\<close>\<close>

text \<open>
  The engine is the class \<^verbatim>\<open>GomokuGame\<close>: a square grid of one-character strings, the
  name of the player to move, and a counter of the stones placed. Python integers are
  unbounded, so they are \<^typ>\<open>int\<close>; a Python exception is a value of \<open>error\<close>; the
  lines written to the console are returned as a list. The methods \<^verbatim>\<open>run\<close> and \<^verbatim>\<open>main\<close>
  are the interactive loop around the engine: they read the keyboard and call the
  operations modelled here, and are not part of the embedding.
\<close>

subsection \<open>Module constants\<close>

text \<open>\<^verbatim>\<open>BOARD_SIZE\<close> is the default of the \<^verbatim>\<open>size\<close> argument of the constructor.\<close>

definition BOARD_SIZE :: int where
  "BOARD_SIZE = 15"

definition EMPTY :: string where
  "EMPTY = ''.''"

text \<open>The dictionary \<^verbatim>\<open>{"black": "X", "white": "O"}\<close>.\<close>

definition PLAYER_STONES :: "string \<rightharpoonup> string" where
  "PLAYER_STONES = [''black'' \<mapsto> ''X'', ''white'' \<mapsto> ''O'']"

subsection \<open>Exceptions and list indexing\<close>

datatype error = IndexError | KeyError

text \<open>
  \<^verbatim>\<open>xs[i]\<close> in Python: an index below zero counts from the end of the list, and an
  index that is still outside the list raises \<^verbatim>\<open>IndexError\<close>.
\<close>

definition py_index :: "'a list \<Rightarrow> int \<Rightarrow> error + 'a" where
  "py_index xs i =
     (if 0 \<le> i \<and> i < int (length xs) then Inr (xs ! nat i)
      else if i < 0 \<and> 0 \<le> int (length xs) + i then Inr (xs ! nat (int (length xs) + i))
      else Inl IndexError)"

subsection \<open>State\<close>

text \<open>
  The field \<^verbatim>\<open>size\<close> is called \<open>size_n\<close> here, since \<open>size\<close> is a constant of HOL.
\<close>

record GomokuGame =
  size_n :: int
  board :: "string list list"
  current_player :: string
  moves_played :: int

record MoveResult =
  winner :: "string option"
  draw :: bool

text \<open>What \<^verbatim>\<open>print\<close> writes: the two notices of \<^verbatim>\<open>place_stone\<close> (their text is not
  ASCII, so each is a constructor of its own) and the lines of \<^verbatim>\<open>print_board\<close>.\<close>

datatype console = OutOfRangeNotice | OccupiedNotice | Line string

text \<open>
  \<^verbatim>\<open>[[EMPTY for _ in range(size)] for _ in range(size)]\<close>: the inner comprehension runs
  once for every row, so the rows are distinct lists and a write to one row changes no
  other row. \<^verbatim>\<open>range(size)\<close> is empty for a size below one.
\<close>

definition create_board :: "int \<Rightarrow> string list list" where
  "create_board sz = replicate (nat sz) (replicate (nat sz) EMPTY)"

definition GomokuGame_init :: "int \<Rightarrow> GomokuGame" where
  "GomokuGame_init sz =
     \<lparr>size_n = sz, board = create_board sz, current_player = ''black'', moves_played = 0\<rparr>"

definition switch_player :: "GomokuGame \<Rightarrow> GomokuGame" where
  "switch_player g =
     g\<lparr>current_player := (if current_player g = ''black'' then ''white'' else ''black'')\<rparr>"

text \<open>\<^verbatim>\<open>self.board[r][c]\<close>.\<close>

definition cell_at :: "GomokuGame \<Rightarrow> int \<Rightarrow> int \<Rightarrow> error + string" where
  "cell_at g r c = (case py_index (board g) r of Inl e \<Rightarrow> Inl e | Inr rw \<Rightarrow> py_index rw c)"

subsection \<open>Placing a stone\<close>

text \<open>
  \<^verbatim>\<open>place_stone\<close> returns the Boolean, what it printed, and the game after the call.
  The write \<^verbatim>\<open>self.board[row][col] = stone\<close> comes after the bounds test and after the
  read of the same cell: both indices are at least zero and the read has not raised, so
  the write is the list update at \<open>nat row\<close>, \<open>nat col\<close>.
\<close>

definition place_stone ::
  "GomokuGame \<Rightarrow> int \<Rightarrow> int \<Rightarrow> error + (bool \<times> console list \<times> GomokuGame)" where
  "place_stone g row col =
     (if \<not> (0 \<le> row \<and> row < size_n g \<and> 0 \<le> col \<and> col < size_n g)
      then Inr (False, [OutOfRangeNotice], g)
      else case cell_at g row col of
        Inl e \<Rightarrow> Inl e
      | Inr v \<Rightarrow>
          if v \<noteq> EMPTY then Inr (False, [OccupiedNotice], g)
          else (case PLAYER_STONES (current_player g) of
              None \<Rightarrow> Inl KeyError
            | Some stone \<Rightarrow>
                Inr (True, [],
                  g\<lparr>board := (board g)[nat row := (board g ! nat row)[nat col := stone]],
                    moves_played := moves_played g + 1\<rparr>)))"

subsection \<open>Checking the outcome\<close>

text \<open>
  The inner \<^verbatim>\<open>while True\<close> loop of \<^verbatim>\<open>count\<close>, for one value of \<^verbatim>\<open>direction\<close>:
  \<open>step_r\<close> and \<open>step_c\<close> are \<^verbatim>\<open>direction_row * direction\<close> and
  \<^verbatim>\<open>direction_col * direction\<close>, \<open>n\<close> is \<^verbatim>\<open>count_stones\<close>. The loop has no bound of
  its own, so the result is an option: \<open>None\<close> is a loop that never ends. The \<^verbatim>\<open>and\<close>
  is evaluated left to right, so the board is read only after the four comparisons.
\<close>

partial_function (option) scan ::
  "GomokuGame \<Rightarrow> string \<Rightarrow> int \<Rightarrow> int \<Rightarrow> int \<Rightarrow> int \<Rightarrow> int \<Rightarrow> (error + int) option" where
  "scan g stone step_r step_c r c n =
     (if 0 \<le> r + step_r \<and> r + step_r < size_n g \<and> 0 \<le> c + step_c \<and> c + step_c < size_n g
      then (case cell_at g (r + step_r) (c + step_c) of
          Inl e \<Rightarrow> Some (Inl e)
        | Inr v \<Rightarrow>
            if v = stone then scan g stone step_r step_c (r + step_r) (c + step_c) (n + 1)
            else Some (Inr n))
      else Some (Inr n))"

declare scan.simps [code]

text \<open>The local function \<^verbatim>\<open>count\<close>: \<^verbatim>\<open>for direction in (1, -1)\<close> around the loop.\<close>

definition count ::
  "GomokuGame \<Rightarrow> string \<Rightarrow> int \<Rightarrow> int \<Rightarrow> int \<Rightarrow> int \<Rightarrow> (error + int) option" where
  "count g stone row col direction_row direction_col =
     (case scan g stone (direction_row * 1) (direction_col * 1) row col 1 of
        None \<Rightarrow> None
      | Some (Inl e) \<Rightarrow> Some (Inl e)
      | Some (Inr n) \<Rightarrow> scan g stone (direction_row * (- 1)) (direction_col * (- 1)) row col n)"

definition directions :: "(int \<times> int) list" where
  "directions = [(1, 0), (0, 1), (1, 1), (1, - 1)]"

text \<open>
  \<^verbatim>\<open>for dr, dc in directions: if count(dr, dc) >= 5: return ...\<close>: \<open>True\<close> when the
  loop returned from inside, \<open>False\<close> when it ran to its end.
\<close>

fun first_win ::
  "GomokuGame \<Rightarrow> string \<Rightarrow> int \<Rightarrow> int \<Rightarrow> (int \<times> int) list \<Rightarrow> (error + bool) option" where
  "first_win g stone row col [] = Some (Inr False)"
| "first_win g stone row col ((dr, dc) # ds) =
     (case count g stone row col dr dc of
        None \<Rightarrow> None
      | Some (Inl e) \<Rightarrow> Some (Inl e)
      | Some (Inr n) \<Rightarrow> if 5 \<le> n then Some (Inr True) else first_win g stone row col ds)"

text \<open>\<^verbatim>\<open>check_winner\<close> assigns to no field; it returns its result and the game it was given.\<close>

definition check_winner ::
  "GomokuGame \<Rightarrow> int \<Rightarrow> int \<Rightarrow> (error + (MoveResult \<times> GomokuGame)) option" where
  "check_winner g row col =
     (case PLAYER_STONES (current_player g) of
        None \<Rightarrow> Some (Inl KeyError)
      | Some stone \<Rightarrow>
          (case first_win g stone row col directions of
             None \<Rightarrow> None
           | Some (Inl e) \<Rightarrow> Some (Inl e)
           | Some (Inr True) \<Rightarrow>
               Some (Inr (\<lparr>winner = Some (current_player g), draw = False\<rparr>, g))
           | Some (Inr False) \<Rightarrow>
               if moves_played g = size_n g * size_n g
               then Some (Inr (\<lparr>winner = None, draw = True\<rparr>, g))
               else Some (Inr (\<lparr>winner = None, draw = False\<rparr>, g))))"

subsection \<open>Rendering\<close>

text \<open>Decimal digits of a natural number, and \<^verbatim>\<open>f"{i:2}"\<close>: right-aligned in two columns.\<close>

fun dec :: "nat \<Rightarrow> string" where
  "dec n = (if n < 10 then [char_of (48 + n)] else dec (n div 10) @ [char_of (48 + n mod 10)])"

definition fmt2 :: "nat \<Rightarrow> string" where
  "fmt2 i = replicate (2 - length (dec i)) CHR '' '' @ dec i"

fun join :: "string \<Rightarrow> string list \<Rightarrow> string" where
  "join sep [] = []"
| "join sep [x] = x"
| "join sep (x # y # ys) = x @ sep @ join sep (y # ys)"

text \<open>
  \<^verbatim>\<open>print_board\<close>: the header over \<^verbatim>\<open>range(1, size + 1)\<close>, then one line for every row
  of the board, numbered from one.
\<close>

definition print_board :: "GomokuGame \<Rightarrow> console list \<times> GomokuGame" where
  "print_board g =
     (Line (''   '' @ join '' '' (map fmt2 [1 ..< nat (size_n g) + 1]))
        # map (\<lambda>(idx, rw). Line (fmt2 idx @ '' '' @ join '' '' rw))
            (zip [1 ..< length (board g) + 1] (board g)),
      g)"


section \<open>Specification vocabulary\<close>

text \<open>The three outcomes of the specification, as values of \<^verbatim>\<open>MoveResult\<close>.\<close>

definition Win :: "string \<Rightarrow> MoveResult" where
  "Win p = \<lparr>winner = Some p, draw = False\<rparr>"

definition Draw :: MoveResult where
  "Draw = \<lparr>winner = None, draw = True\<rparr>"

definition Ongoing :: MoveResult where
  "Ongoing = \<lparr>winner = None, draw = False\<rparr>"

text \<open>
  The shape every game built by the constructor has and \<^verbatim>\<open>place_stone\<close> keeps: the board
  has \<open>size_n\<close> rows of \<open>size_n\<close> cells, and the player to move is one of the two names.
\<close>

definition well_formed :: "GomokuGame \<Rightarrow> bool" where
  "well_formed g =
     (length (board g) = nat (size_n g) \<and>
      list_all (\<lambda>rw. length rw = nat (size_n g)) (board g) \<and>
      (current_player g = ''black'' \<or> current_player g = ''white''))"

definition in_bounds :: "GomokuGame \<Rightarrow> int \<Rightarrow> int \<Rightarrow> bool" where
  "in_bounds g r c = (0 \<le> r \<and> r < size_n g \<and> 0 \<le> c \<and> c < size_n g)"

text \<open>The cell \<open>(r, c)\<close> is on the board and holds the marker \<open>stone\<close>.\<close>

definition matches :: "GomokuGame \<Rightarrow> string \<Rightarrow> int \<Rightarrow> int \<Rightarrow> bool" where
  "matches g stone r c = (in_bounds g r c \<and> cell_at g r c = Inr stone)"

text \<open>
  Exactly \<open>p\<close> consecutive cells holding \<open>stone\<close> follow \<open>(r, c)\<close> in the direction
  \<open>(step_r, step_c)\<close>: the cells at distance \<open>1\<close> to \<open>p\<close> match, and the next one is
  off the board or does not match.
\<close>

definition run_of ::
  "GomokuGame \<Rightarrow> string \<Rightarrow> int \<Rightarrow> int \<Rightarrow> int \<Rightarrow> int \<Rightarrow> nat \<Rightarrow> bool" where
  "run_of g stone r c step_r step_c p =
     ((\<forall>k \<in> {1 .. p}. matches g stone (r + int k * step_r) (c + int k * step_c)) \<and>
      \<not> matches g stone (r + (int p + 1) * step_r) (c + (int p + 1) * step_c))"

text \<open>
  The total of an axis through \<open>(row, col)\<close>: one for the cell itself, plus the run on the
  positive side, plus the run on the negative side.
\<close>

definition axis_total ::
  "GomokuGame \<Rightarrow> string \<Rightarrow> int \<Rightarrow> int \<Rightarrow> int \<Rightarrow> int \<Rightarrow> int \<Rightarrow> bool" where
  "axis_total g stone row col dr dc t =
     (\<exists>p q. run_of g stone row col dr dc p \<and> run_of g stone row col (- dr) (- dc) q \<and>
        t = 1 + int p + int q)"

definition five_on_some_axis :: "GomokuGame \<Rightarrow> string \<Rightarrow> int \<Rightarrow> int \<Rightarrow> bool" where
  "five_on_some_axis g stone row col =
     (\<exists>(dr, dc) \<in> set directions. \<exists>t. 5 \<le> t \<and> axis_total g stone row col dr dc t)"

text \<open>
  A measure for the scan loop: an upper bound on the cells left before the scan leaves
  the board in the direction \<open>(sr, sc)\<close>.
\<close>

definition to_edge :: "GomokuGame \<Rightarrow> int \<Rightarrow> int \<Rightarrow> int \<Rightarrow> int \<Rightarrow> nat" where
  "to_edge g sr sc r c =
     (if 0 < sr then nat (size_n g - r) else if sr < 0 then nat (r + 1)
      else if 0 < sc then nat (size_n g - c) else nat (c + 1))"

text \<open>The game \<open>g\<close> with the value \<open>v\<close> in the cell \<open>(row, col)\<close>.\<close>

definition set_cell :: "GomokuGame \<Rightarrow> int \<Rightarrow> int \<Rightarrow> string \<Rightarrow> GomokuGame" where
  "set_cell g row col v = g\<lparr>board := (board g)[nat row := (board g ! nat row)[nat col := v]]\<rparr>"

definition occupied_count :: "GomokuGame \<Rightarrow> nat" where
  "occupied_count g = sum_list (map (\<lambda>rw. length (filter (\<lambda>v. v \<noteq> EMPTY) rw)) (board g))"

definition occupancy_inv :: "GomokuGame \<Rightarrow> bool" where
  "occupancy_inv g = (moves_played g = int (occupied_count g))"

text \<open>One call of an engine operation that returns, and the games reached by such calls.\<close>

inductive engine_step :: "GomokuGame \<Rightarrow> GomokuGame \<Rightarrow> bool" where
  step_place: "place_stone g row col = Inr (ok, out, g') \<Longrightarrow> engine_step g g'"
| step_check: "check_winner g row col = Some (Inr (res, g')) \<Longrightarrow> engine_step g g'"
| step_switch: "engine_step g (switch_player g)"
| step_print: "print_board g = (out, g') \<Longrightarrow> engine_step g g'"

inductive reachable :: "GomokuGame \<Rightarrow> bool" where
  reach_init: "reachable (GomokuGame_init sz)"
| reach_step: "reachable g \<Longrightarrow> engine_step g g' \<Longrightarrow> reachable g'"

text \<open>What the caller of \<^verbatim>\<open>place_stone\<close> receives: the Boolean, or the exception.\<close>

definition returned :: "error + (bool \<times> console list \<times> GomokuGame) \<Rightarrow> error + bool" where
  "returned r = (case r of Inl e \<Rightarrow> Inl e | Inr (ok, out, g') \<Rightarrow> Inr ok)"

definition outcome_of ::
  "(error + (MoveResult \<times> GomokuGame)) option \<Rightarrow> (error + MoveResult) option" where
  "outcome_of r = map_option (map_sum id fst) r"

subsection \<open>Sample games\<close>

text \<open>
  Black has just moved at \<open>(2, 2)\<close>: the stone is the fourth of a row closed by the left
  edge and by a white stone, and the fifth of a column.
\<close>

definition crossing_before :: GomokuGame where
  "crossing_before =
     \<lparr>size_n = 5,
      board = [[''O'', ''O'', ''X'', ''.'', ''.''],
               [''O'', ''O'', ''X'', ''.'', ''.''],
               [''X'', ''X'', ''.'', ''X'', ''O''],
               [''O'', ''O'', ''X'', ''.'', ''.''],
               [''.'', ''.'', ''X'', ''.'', ''.'']],
      current_player = ''black'', moves_played = 14\<rparr>"

definition crossing_game :: GomokuGame where
  "crossing_game =
     \<lparr>size_n = 5,
      board = [[''O'', ''O'', ''X'', ''.'', ''.''],
               [''O'', ''O'', ''X'', ''.'', ''.''],
               [''X'', ''X'', ''X'', ''X'', ''O''],
               [''O'', ''O'', ''X'', ''.'', ''.''],
               [''.'', ''.'', ''X'', ''.'', ''.'']],
      current_player = ''black'', moves_played = 15\<rparr>"

text \<open>Four black stones in a row beside an empty cell, and beside a white stone.\<close>

definition beside_empty :: GomokuGame where
  "beside_empty =
     \<lparr>size_n = 5,
      board = [[''.'', ''X'', ''X'', ''X'', ''X''],
               [''O'', ''O'', ''O'', ''.'', ''.''],
               [''O'', ''.'', ''.'', ''.'', ''.''],
               [''.'', ''.'', ''.'', ''.'', ''.''],
               [''.'', ''.'', ''.'', ''.'', ''.'']],
      current_player = ''black'', moves_played = 8\<rparr>"

definition beside_white :: GomokuGame where
  "beside_white =
     \<lparr>size_n = 5,
      board = [[''O'', ''X'', ''X'', ''X'', ''X''],
               [''O'', ''O'', ''O'', ''.'', ''.''],
               [''.'', ''.'', ''.'', ''.'', ''.''],
               [''.'', ''.'', ''.'', ''.'', ''.''],
               [''.'', ''.'', ''.'', ''.'', ''.'']],
      current_player = ''black'', moves_played = 8\<rparr>"

text \<open>A board of three by three after Black's first move.\<close>

definition first_move :: GomokuGame where
  "first_move =
     \<lparr>size_n = 3,
      board = [[''X'', ''.'', ''.''], [''.'', ''.'', ''.''], [''.'', ''.'', ''.'']],
      current_player = ''black'', moves_played = 1\<rparr>"

text \<open>A board of three by three filled by Black's fifth move, with no line of five.\<close>

definition full_board :: GomokuGame where
  "full_board =
     \<lparr>size_n = 3,
      board = [[''X'', ''O'', ''X''], [''O'', ''X'', ''O''], [''O'', ''X'', ''X'']],
      current_player = ''black'', moves_played = 9\<rparr>"

text \<open>Black completes the top row at \<open>(0, 2)\<close>; the same on the move that fills the board.\<close>

definition row_five :: GomokuGame where
  "row_five =
     \<lparr>size_n = 5,
      board = [[''X'', ''X'', ''X'', ''X'', ''X''],
               [''O'', ''O'', ''O'', ''O'', ''.''],
               [''.'', ''.'', ''.'', ''.'', ''.''],
               [''.'', ''.'', ''.'', ''.'', ''.''],
               [''.'', ''.'', ''.'', ''.'', ''.'']],
      current_player = ''black'', moves_played = 9\<rparr>"

definition full_win :: GomokuGame where
  "full_win =
     \<lparr>size_n = 5,
      board = [[''X'', ''X'', ''X'', ''X'', ''X''],
               [''O'', ''O'', ''X'', ''O'', ''O''],
               [''O'', ''X'', ''O'', ''X'', ''O''],
               [''X'', ''O'', ''X'', ''O'', ''X''],
               [''O'', ''X'', ''O'', ''X'', ''O'']],
      current_player = ''black'', moves_played = 25\<rparr>"

section \<open>Properties of the embedding\<close>

subsection \<open>Reading a cell\<close>

lemma cell_at_in_bounds:
  assumes "well_formed g" "in_bounds g r c"
  shows "cell_at g r c = Inr (board g ! nat r ! nat c)"
proof -
  from assms have r: "0 \<le> r" "r < int (length (board g))" and c: "0 \<le> c" "nat c < nat (size_n g)"
    by (auto simp: well_formed_def in_bounds_def)
  from r have "nat r < length (board g)" by linarith
  with assms(1) have "length (board g ! nat r) = nat (size_n g)"
    by (simp add: well_formed_def list_all_length)
  with r c show ?thesis
    by (simp add: cell_at_def py_index_def)
qed

lemma player_stone:
  assumes "well_formed g"
  obtains stone where "PLAYER_STONES (current_player g) = Some stone"
  using assms by (auto simp: well_formed_def PLAYER_STONES_def)

lemma stone_not_empty: "PLAYER_STONES p = Some stone \<Longrightarrow> stone \<noteq> EMPTY"
  by (auto simp: PLAYER_STONES_def EMPTY_def split: if_splits)

subsection \<open>The scan loop\<close>

lemma scan_step_match:
  "matches g stone (r + sr) (c + sc) \<Longrightarrow>
   scan g stone sr sc r c n = scan g stone sr sc (r + sr) (c + sc) (n + 1)"
  by (subst scan.simps) (simp add: matches_def in_bounds_def)

lemma scan_step_stop:
  "well_formed g \<Longrightarrow> \<not> matches g stone (r + sr) (c + sc) \<Longrightarrow>
   scan g stone sr sc r c n = Some (Inr n)"
  using cell_at_in_bounds [of g "r + sr" "c + sc"]
  by (subst scan.simps) (auto simp: matches_def in_bounds_def)

lemma run_of_0: "\<not> matches g stone (r + sr) (c + sc) \<Longrightarrow> run_of g stone r c sr sc 0"
  by (simp add: run_of_def)

lemma run_of_Suc:
  assumes "matches g stone (r + sr) (c + sc)" "run_of g stone (r + sr) (c + sc) sr sc p"
  shows "run_of g stone r c sr sc (Suc p)"
proof -
  have "matches g stone (r + int k * sr) (c + int k * sc)" if "k \<in> {1 .. Suc p}" for k
  proof (cases "k = 1")
    case True
    with assms(1) show ?thesis by simp
  next
    case False
    with that obtain j where j: "k = Suc j" "j \<in> {1 .. p}"
      by (cases k) auto
    with assms(2) have "matches g stone (r + sr + int j * sr) (c + sc + int j * sc)"
      by (simp add: run_of_def)
    with j show ?thesis by (simp add: algebra_simps)
  qed
  moreover from assms(2)
  have "\<not> matches g stone (r + (int (Suc p) + 1) * sr) (c + (int (Suc p) + 1) * sc)"
    by (simp add: run_of_def algebra_simps)
  ultimately show ?thesis
    unfolding run_of_def by blast
qed

lemma run_of_unique:
  assumes "run_of g stone r c sr sc p" "run_of g stone r c sr sc q"
  shows "p = q"
proof (rule ccontr)
  assume "p \<noteq> q"
  then consider "p < q" | "q < p" by linarith
  then show False
  proof cases
    case 1
    then have "Suc p \<in> {1 .. q}" by simp
    with assms(2) have "matches g stone (r + int (Suc p) * sr) (c + int (Suc p) * sc)"
      unfolding run_of_def by blast
    with assms(1) show False by (simp add: run_of_def add.commute)
  next
    case 2
    then have "Suc q \<in> {1 .. p}" by simp
    with assms(1) have "matches g stone (r + int (Suc q) * sr) (c + int (Suc q) * sc)"
      unfolding run_of_def by blast
    with assms(2) show False by (simp add: run_of_def add.commute)
  qed
qed

lemma to_edge_less:
  "sr \<noteq> 0 \<or> sc \<noteq> 0 \<Longrightarrow> in_bounds g (r + sr) (c + sc) \<Longrightarrow>
   to_edge g sr sc (r + sr) (c + sc) < to_edge g sr sc r c"
  by (auto simp: to_edge_def in_bounds_def)

text \<open>On a well-formed game the loop ends, raises nothing, and adds the run to its counter.\<close>

lemma scan_run:
  assumes "well_formed g" "sr \<noteq> 0 \<or> sc \<noteq> 0"
  shows "\<exists>p. run_of g stone r c sr sc p \<and> scan g stone sr sc r c n = Some (Inr (n + int p))"
proof (induction "to_edge g sr sc r c" arbitrary: r c n rule: less_induct)
  case less
  show ?case
  proof (cases "matches g stone (r + sr) (c + sc)")
    case False
    with assms(1) have "run_of g stone r c sr sc 0"
      "scan g stone sr sc r c n = Some (Inr (n + int 0))"
      by (simp_all add: run_of_0 scan_step_stop)
    then show ?thesis by blast
  next
    case True
    then have "in_bounds g (r + sr) (c + sc)" by (simp add: matches_def)
    with assms(2) have "to_edge g sr sc (r + sr) (c + sc) < to_edge g sr sc r c"
      by (rule to_edge_less)
    from less [OF this, of "n + 1"] obtain p where
      p: "run_of g stone (r + sr) (c + sc) sr sc p"
         "scan g stone sr sc (r + sr) (c + sc) (n + 1) = Some (Inr (n + 1 + int p))"
      by blast
    from True p(1) have "run_of g stone r c sr sc (Suc p)" by (rule run_of_Suc)
    moreover from True p(2) have "scan g stone sr sc r c n = Some (Inr (n + int (Suc p)))"
      by (simp add: scan_step_match)
    ultimately show ?thesis by blast
  qed
qed

lemma count_axis_total:
  assumes "well_formed g" "dr \<noteq> 0 \<or> dc \<noteq> 0"
  shows "\<exists>t. count g stone row col dr dc = Some (Inr t) \<and> axis_total g stone row col dr dc t"
proof -
  from scan_run [OF assms, of stone row col 1] obtain p where
    p: "run_of g stone row col dr dc p" "scan g stone dr dc row col 1 = Some (Inr (1 + int p))"
    by blast
  from assms(2) have "- dr \<noteq> 0 \<or> - dc \<noteq> 0" by simp
  from scan_run [OF assms(1) this, of stone row col "1 + int p"] obtain q where
    q: "run_of g stone row col (- dr) (- dc) q"
       "scan g stone (- dr) (- dc) row col (1 + int p) = Some (Inr (1 + int p + int q))"
    by blast
  from p(2) q(2) have "count g stone row col dr dc = Some (Inr (1 + int p + int q))"
    by (simp add: count_def)
  with p(1) q(1) show ?thesis
    unfolding axis_total_def by blast
qed

lemma axis_total_unique:
  "axis_total g stone row col dr dc t \<Longrightarrow> axis_total g stone row col dr dc t' \<Longrightarrow> t = t'"
  unfolding axis_total_def by (metis run_of_unique)

lemma count_iff_axis_total:
  assumes "well_formed g" "dr \<noteq> 0 \<or> dc \<noteq> 0"
  shows "(count g stone row col dr dc = Some (Inr t)) = axis_total g stone row col dr dc t"
  using count_axis_total [OF assms, of stone row col] axis_total_unique [of g stone row col dr dc]
  by auto

subsection \<open>The loop over the axes\<close>

lemma first_win_list:
  assumes "well_formed g" "\<forall>(dr, dc) \<in> set ds. dr \<noteq> 0 \<or> dc \<noteq> 0"
  shows "first_win g stone row col ds =
           Some (Inr (\<exists>(dr, dc) \<in> set ds. \<exists>t. 5 \<le> t \<and> axis_total g stone row col dr dc t))"
  using assms(2)
proof (induction ds)
  case Nil
  then show ?case by simp
next
  case (Cons d ds)
  obtain dr dc where d: "d = (dr, dc)" by (cases d)
  with Cons.prems have nz: "dr \<noteq> 0 \<or> dc \<noteq> 0" by simp
  from count_axis_total [OF assms(1) nz, of stone row col] obtain t where
    t: "count g stone row col dr dc = Some (Inr t)" "axis_total g stone row col dr dc t"
    by blast
  have five: "(\<exists>t'. 5 \<le> t' \<and> axis_total g stone row col dr dc t') = (5 \<le> t)"
    using t(2) axis_total_unique [of g stone row col dr dc] by blast
  from Cons have "first_win g stone row col ds =
      Some (Inr (\<exists>(dr, dc) \<in> set ds. \<exists>t. 5 \<le> t \<and> axis_total g stone row col dr dc t))"
    by simp
  with t(1) five show ?case
    by (simp add: d)
qed

lemma directions_nonzero: "\<forall>(dr, dc) \<in> set directions. dr \<noteq> 0 \<or> dc \<noteq> 0"
  by (simp add: directions_def)

lemma check_winner_well_formed:
  assumes "well_formed g" "PLAYER_STONES (current_player g) = Some stone"
  shows "check_winner g row col =
           Some (Inr (if five_on_some_axis g stone row col then Win (current_player g)
                      else if moves_played g = size_n g * size_n g then Draw else Ongoing, g))"
  using first_win_list [OF assms(1) directions_nonzero, of stone row col] assms(2)
  by (simp add: check_winner_def five_on_some_axis_def Win_def Draw_def Ongoing_def)

lemma first_win_prefix:
  assumes "\<forall>(dr', dc') \<in> set ds1. \<exists>t'. t' < 5 \<and> count g stone row col dr' dc' = Some (Inr t')"
    and "count g stone row col dr dc = Some (Inr t)" "5 \<le> t"
  shows "first_win g stone row col (ds1 @ (dr, dc) # ds2) = Some (Inr True)"
  using assms(1)
proof (induction ds1)
  case Nil
  from assms(2,3) show ?case by simp
next
  case (Cons d ds1)
  obtain dr' dc' where d: "d = (dr', dc')" by (cases d)
  with Cons.prems obtain t' where "t' < 5" "count g stone row col dr' dc' = Some (Inr t')"
    by auto
  moreover from Cons have "first_win g stone row col (ds1 @ (dr, dc) # ds2) = Some (Inr True)"
    by simp
  ultimately show ?case by (simp add: d)
qed

lemma check_winner_first_axis:
  assumes st: "PLAYER_STONES (current_player g) = Some stone"
    and i: "i < length directions"
    and hit: "\<exists>t. 5 \<le> t \<and> count g stone row col (fst (directions ! i)) (snd (directions ! i)) = Some (Inr t)"
    and before: "\<forall>j < i. \<exists>t. t < 5 \<and>
        count g stone row col (fst (directions ! j)) (snd (directions ! j)) = Some (Inr t)"
  shows "check_winner g row col = Some (Inr (Win (current_player g), g))"
proof -
  from hit obtain t where t: "5 \<le> t"
    "count g stone row col (fst (directions ! i)) (snd (directions ! i)) = Some (Inr t)"
    by blast
  have split: "directions = take i directions @ (fst (directions ! i), snd (directions ! i)) # drop (Suc i) directions"
    using i by (simp add: id_take_nth_drop)
  have "\<forall>(dr', dc') \<in> set (take i directions). \<exists>t'. t' < 5 \<and> count g stone row col dr' dc' = Some (Inr t')"
  proof (clarify)
    fix dr' dc' assume "(dr', dc') \<in> set (take i directions)"
    then obtain j where "j < i" "directions ! j = (dr', dc')"
      using i by (auto simp: in_set_conv_nth)
    with before show "\<exists>t'. t' < 5 \<and> count g stone row col dr' dc' = Some (Inr t')"
      by force
  qed
  from first_win_prefix [OF this t(2) t(1), of "drop (Suc i) directions"] split
  have "first_win g stone row col directions = Some (Inr True)" by simp
  with st show ?thesis by (simp add: check_winner_def Win_def)
qed

subsection \<open>Placing a stone\<close>

lemma place_stone_out_of_bounds:
  "\<not> in_bounds g row col \<Longrightarrow> place_stone g row col = Inr (False, [OutOfRangeNotice], g)"
  by (simp add: place_stone_def in_bounds_def)

lemma place_stone_occupied:
  assumes "well_formed g" "in_bounds g row col" "cell_at g row col \<noteq> Inr EMPTY"
  shows "place_stone g row col = Inr (False, [OccupiedNotice], g)"
proof -
  from cell_at_in_bounds [OF assms(1,2)] assms(3)
  obtain v where "cell_at g row col = Inr v" "v \<noteq> EMPTY" by auto
  with assms(2) show ?thesis
    by (simp add: place_stone_def in_bounds_def)
qed

lemma place_stone_empty:
  assumes "in_bounds g row col" "cell_at g row col = Inr EMPTY"
    "PLAYER_STONES (current_player g) = Some stone"
  shows "place_stone g row col =
           Inr (True, [], (set_cell g row col stone)\<lparr>moves_played := moves_played g + 1\<rparr>)"
  using assms by (simp add: place_stone_def in_bounds_def set_cell_def)

lemma well_formed_set_cell:
  assumes "well_formed g"
  shows "well_formed (set_cell g row col v)"
proof -
  have "length ((board g)[nat row := (board g ! nat row)[nat col := v]] ! n) = length (board g ! n)"
    if "n < length (board g)" for n
    using that by (cases "n = nat row") simp_all
  with assms show ?thesis
    by (simp add: well_formed_def set_cell_def list_all_length)
qed

lemma cell_at_set_cell:
  assumes "well_formed g" "in_bounds g row col" "in_bounds g r c"
  shows "cell_at (set_cell g row col v) r c = (if (r, c) = (row, col) then Inr v else cell_at g r c)"
proof -
  have wf': "well_formed (set_cell g row col v)"
    using assms(1) by (rule well_formed_set_cell)
  have inb': "in_bounds (set_cell g row col v) r c"
    using assms(3) by (simp add: in_bounds_def set_cell_def)
  from assms have len: "nat row < length (board g)" "nat col < length (board g ! nat row)"
    "nat r < length (board g)" "nat c < length (board g ! nat r)"
    by (auto simp: well_formed_def in_bounds_def list_all_length)
  from assms(2,3) have eqs: "(nat r = nat row) = (r = row)" "(nat c = nat col) = (c = col)"
    by (auto simp: in_bounds_def)
  show ?thesis
    unfolding cell_at_in_bounds [OF wf' inb'] cell_at_in_bounds [OF assms(1,3)]
    using len eqs by (auto simp: set_cell_def nth_list_update)
qed

subsection \<open>The full board, cells off the board, and the cell itself\<close>

lemma filter_full: "(length (filter P xs) = length xs) = (\<forall>x \<in> set xs. P x)"
proof (induction xs)
  case Nil
  show ?case by simp
next
  case (Cons x xs)
  have le: "length (filter P xs) \<le> length xs" by (rule length_filter_le)
  show ?case
  proof (cases "P x")
    case True
    with Cons show ?thesis by simp
  next
    case False
    from le have "length (filter P xs) \<noteq> Suc (length xs)" by linarith
    with False show ?thesis by simp
  qed
qed

lemma sum_full:
  fixes f :: "'a \<Rightarrow> nat"
  assumes "\<forall>x \<in> set xs. f x \<le> n"
  shows "sum_list (map f xs) \<le> length xs * n \<and>
         ((sum_list (map f xs) = length xs * n) = (\<forall>x \<in> set xs. f x = n))"
  using assms
proof (induction xs)
  case Nil
  show ?case by simp
next
  case (Cons x xs)
  then have le: "f x \<le> n" "sum_list (map f xs) \<le> length xs * n"
    and eq: "(sum_list (map f xs) = length xs * n) = (\<forall>x \<in> set xs. f x = n)"
    by simp_all
  from le have "(f x + sum_list (map f xs) = n + length xs * n) =
      (f x = n \<and> sum_list (map f xs) = length xs * n)"
    by linarith
  with le eq show ?case by simp
qed

lemma full_board_iff:
  assumes "well_formed g" "occupancy_inv g" "0 \<le> size_n g"
  shows "(moves_played g = size_n g * size_n g) =
         (\<forall>r c. in_bounds g r c \<longrightarrow> cell_at g r c \<noteq> Inr EMPTY)"
proof -
  let ?n = "nat (size_n g)"
  let ?f = "\<lambda>rw. length (filter (\<lambda>v. v \<noteq> EMPTY) rw)"
  from assms(1) have len: "length (board g) = ?n"
    and rows: "\<forall>rw \<in> set (board g). length rw = ?n"
    by (simp_all add: well_formed_def list_all_iff)
  from rows have le: "\<forall>rw \<in> set (board g). ?f rw \<le> ?n"
    by (simp add: order_trans [OF length_filter_le])
  from assms(3) have "size_n g * size_n g = int (?n * ?n)" by simp
  moreover from assms(2) have "moves_played g = int (occupied_count g)"
    by (simp add: occupancy_inv_def)
  ultimately have "(moves_played g = size_n g * size_n g) = (occupied_count g = ?n * ?n)"
    by (simp only: of_nat_eq_iff)
  also have "\<dots> = (\<forall>rw \<in> set (board g). ?f rw = ?n)"
  proof -
    from sum_full [OF le]
    have "(sum_list (map ?f (board g)) = length (board g) * ?n) =
        (\<forall>rw \<in> set (board g). ?f rw = ?n)"
      by (rule conjunct2)
    then show ?thesis by (simp only: occupied_count_def len)
  qed
  also have "\<dots> = (\<forall>rw \<in> set (board g). \<forall>v \<in> set rw. v \<noteq> EMPTY)"
  proof -
    have "(?f rw = ?n) = (\<forall>v \<in> set rw. v \<noteq> EMPTY)" if "rw \<in> set (board g)" for rw
      using that rows filter_full [of "\<lambda>v. v \<noteq> EMPTY" rw] by simp
    then show ?thesis by blast
  qed
  also have "\<dots> = (\<forall>r c. in_bounds g r c \<longrightarrow> cell_at g r c \<noteq> Inr EMPTY)"
  proof (intro iffI allI impI)
    fix r c
    assume all: "\<forall>rw \<in> set (board g). \<forall>v \<in> set rw. v \<noteq> EMPTY" and inb: "in_bounds g r c"
    from inb len have r: "nat r < length (board g)" by (simp add: in_bounds_def)
    from r have mem: "board g ! nat r \<in> set (board g)" by (rule nth_mem)
    with rows inb have "nat c < length (board g ! nat r)" by (simp add: in_bounds_def)
    then have "board g ! nat r ! nat c \<in> set (board g ! nat r)" by (rule nth_mem)
    with mem all have "board g ! nat r ! nat c \<noteq> EMPTY" by blast
    then show "cell_at g r c \<noteq> Inr EMPTY"
      by (simp add: cell_at_in_bounds [OF assms(1) inb])
  next
    assume all: "\<forall>r c. in_bounds g r c \<longrightarrow> cell_at g r c \<noteq> Inr EMPTY"
    show "\<forall>rw \<in> set (board g). \<forall>v \<in> set rw. v \<noteq> EMPTY"
    proof (intro ballI)
      fix rw v assume rw: "rw \<in> set (board g)" and v: "v \<in> set rw"
      from rw obtain i where i: "i < length (board g)" "rw = board g ! i"
        by (auto simp: in_set_conv_nth)
      from v obtain j where j: "j < length rw" "v = rw ! j"
        by (auto simp: in_set_conv_nth)
      from rw rows have "length rw = ?n" by blast
      with i(1) j(1) len have "int i < size_n g" "int j < size_n g"
        by linarith+
      then have inb: "in_bounds g (int i) (int j)"
        by (simp add: in_bounds_def)
      from all inb have "cell_at g (int i) (int j) \<noteq> Inr EMPTY" by blast
      with cell_at_in_bounds [OF assms(1) inb] i(2) j(2) show "v \<noteq> EMPTY"
        by simp
    qed
  qed
  finally show ?thesis .
qed

lemma Win_neq: "Draw \<noteq> Win p" "Ongoing \<noteq> Win p" "Draw \<noteq> Ongoing"
  by (simp_all add: Draw_def Ongoing_def Win_def)

lemma far_outside_no_match:
  assumes "row < - 1 \<or> size_n g < row \<or> col < - 1 \<or> size_n g < col"
    "(dr, dc) \<in> set directions"
  shows "\<not> matches g stone (row + dr) (col + dc)" "\<not> matches g stone (row - dr) (col - dc)"
  using assms by (auto simp: matches_def in_bounds_def directions_def)

lemma matches_set_cell:
  assumes "well_formed g" "in_bounds g row col" "(r, c) \<noteq> (row, col)"
  shows "matches (set_cell g row col v) stone r c = matches g stone r c"
proof (cases "in_bounds g r c")
  case True
  from assms(3) have "cell_at (set_cell g row col v) r c = cell_at g r c"
    unfolding cell_at_set_cell [OF assms(1,2) True] by (rule if_not_P)
  then show ?thesis
    by (simp add: matches_def in_bounds_def set_cell_def)
next
  case False
  moreover have "in_bounds (set_cell g row col v) r c = in_bounds g r c"
    by (simp add: in_bounds_def set_cell_def)
  ultimately show ?thesis by (simp add: matches_def)
qed

lemma run_of_set_cell:
  assumes "well_formed g" "in_bounds g row col" "sr \<noteq> 0 \<or> sc \<noteq> 0"
  shows "run_of (set_cell g row col v) stone row col sr sc p = run_of g stone row col sr sc p"
proof -
  have "matches (set_cell g row col v) stone (row + int k * sr) (col + int k * sc) =
        matches g stone (row + int k * sr) (col + int k * sc)" if "1 \<le> k" for k
  proof -
    from that assms(3) have "(row + int k * sr, col + int k * sc) \<noteq> (row, col)" by auto
    with assms(1,2) show ?thesis by (rule matches_set_cell)
  qed
  from this [of "Suc p"] this show ?thesis
    by (simp add: run_of_def add.commute)
qed

lemma five_on_some_axis_set_cell:
  assumes "well_formed g" "in_bounds g row col"
  shows "five_on_some_axis (set_cell g row col v) stone row col = five_on_some_axis g stone row col"
proof -
  have "axis_total (set_cell g row col v) stone row col dr dc t = axis_total g stone row col dr dc t"
    if "(dr, dc) \<in> set directions" for dr dc t
  proof -
    from that have "dr \<noteq> 0 \<or> dc \<noteq> 0" "- dr \<noteq> 0 \<or> - dc \<noteq> 0"
      using directions_nonzero by auto
    then show ?thesis
      by (simp add: axis_total_def run_of_set_cell [OF assms])
  qed
  then have "(case d of (dr, dc) \<Rightarrow>
        \<exists>t. 5 \<le> t \<and> axis_total (set_cell g row col v) stone row col dr dc t) =
      (case d of (dr, dc) \<Rightarrow> \<exists>t. 5 \<le> t \<and> axis_total g stone row col dr dc t)"
    if "d \<in> set directions" for d
    using that by (cases d) simp
  then show ?thesis
    unfolding five_on_some_axis_def by (intro bex_cong refl)
qed

subsection \<open>Invariants of the engine operations\<close>

lemma occupancy_init: "occupancy_inv (GomokuGame_init sz)"
  by (simp add: occupancy_inv_def occupied_count_def GomokuGame_init_def create_board_def
      sum_list_replicate)

lemma well_formed_init: "well_formed (GomokuGame_init sz)"
  by (simp add: well_formed_def GomokuGame_init_def create_board_def list_all_iff)

lemma py_index_nonneg:
  "0 \<le> i \<Longrightarrow> py_index xs i = Inr x \<Longrightarrow> nat i < length xs \<and> x = xs ! nat i"
  by (auto simp: py_index_def split: if_splits)

lemma row_count_update:
  "j < length rw \<Longrightarrow> rw ! j = EMPTY \<Longrightarrow> stone \<noteq> EMPTY \<Longrightarrow>
   length (filter (\<lambda>v. v \<noteq> EMPTY) (rw[j := stone])) = Suc (length (filter (\<lambda>v. v \<noteq> EMPTY) rw))"
proof (induction rw arbitrary: j)
  case Nil
  then show ?case by simp
next
  case (Cons x rw)
  then show ?case by (cases j) simp_all
qed

lemma board_count_update:
  fixes f :: "'a \<Rightarrow> nat"
  shows "i < length xs \<Longrightarrow> f y = Suc (f (xs ! i)) \<Longrightarrow>
         sum_list (map f (xs[i := y])) = Suc (sum_list (map f xs))"
proof (induction xs arbitrary: i)
  case Nil
  then show ?case by simp
next
  case (Cons x xs)
  then show ?case by (cases i) simp_all
qed

lemma occupancy_place_stone:
  assumes "occupancy_inv g" "place_stone g row col = Inr (ok, out, g')"
  shows "occupancy_inv g'"
proof (cases ok)
  case False
  with assms(2) have "g' = g"
    by (auto simp: place_stone_def split: if_splits sum.splits option.splits)
  with assms(1) show ?thesis by simp
next
  case True
  with assms(2) obtain stone where
    inb: "0 \<le> row" "0 \<le> col" and cell: "cell_at g row col = Inr EMPTY"
    and st: "PLAYER_STONES (current_player g) = Some stone"
    and g': "g' = g\<lparr>board := (board g)[nat row := (board g ! nat row)[nat col := stone]],
                    moves_played := moves_played g + 1\<rparr>"
    by (auto simp: place_stone_def split: if_splits sum.splits option.splits)
  from cell obtain rw where rw: "py_index (board g) row = Inr rw" "py_index rw col = Inr EMPTY"
    by (auto simp: cell_at_def split: sum.splits)
  from py_index_nonneg [OF inb(1) rw(1)] have r: "nat row < length (board g)" "rw = board g ! nat row"
    by simp_all
  from py_index_nonneg [OF inb(2) rw(2)] r(2)
  have c: "nat col < length (board g ! nat row)" "board g ! nat row ! nat col = EMPTY"
    by simp_all
  from st have "stone \<noteq> EMPTY" by (rule stone_not_empty)
  with c have "length (filter (\<lambda>v. v \<noteq> EMPTY) ((board g ! nat row)[nat col := stone])) =
      Suc (length (filter (\<lambda>v. v \<noteq> EMPTY) (board g ! nat row)))"
    by (rule row_count_update)
  with r(1) have "occupied_count g' = Suc (occupied_count g)"
    unfolding occupied_count_def g' by (simp add: board_count_update)
  with assms(1) show ?thesis
    by (simp add: occupancy_inv_def g')
qed

lemma check_winner_same: "check_winner g row col = Some (Inr (res, g')) \<Longrightarrow> g' = g"
  by (auto simp: check_winner_def split: option.splits sum.splits bool.splits if_splits)

lemma occupancy_step:
  assumes "occupancy_inv g" "engine_step g g'"
  shows "occupancy_inv g'"
  using assms(2,1)
proof cases
  case (step_place row col ok out)
  with assms(1) show ?thesis by (auto intro: occupancy_place_stone)
next
  case (step_check row col res)
  with assms(1) show ?thesis by (auto dest: check_winner_same)
next
  case step_switch
  with assms(1) show ?thesis
    by (simp add: switch_player_def occupancy_inv_def occupied_count_def)
next
  case (step_print out)
  with assms(1) show ?thesis by (simp add: print_board_def)
qed

lemma well_formed_step:
  assumes "well_formed g" "engine_step g g'"
  shows "well_formed g'"
  using assms(2,1)
proof cases
  case (step_place row col ok out)
  then have "g' = g \<or> (\<exists>stone. g' = (set_cell g row col stone)\<lparr>moves_played := moves_played g + 1\<rparr>)"
    by (auto simp: place_stone_def set_cell_def split: if_splits sum.splits option.splits)
  then show ?thesis
  proof
    assume "g' = g"
    with assms(1) show ?thesis by simp
  next
    assume "\<exists>stone. g' = (set_cell g row col stone)\<lparr>moves_played := moves_played g + 1\<rparr>"
    then obtain stone where "g' = (set_cell g row col stone)\<lparr>moves_played := moves_played g + 1\<rparr>"
      by blast
    with well_formed_set_cell [OF assms(1), of row col stone] show ?thesis
      by (simp add: well_formed_def)
  qed
next
  case (step_check row col res)
  with assms(1) show ?thesis by (auto dest: check_winner_same)
next
  case step_switch
  with assms(1) show ?thesis
    by (simp add: switch_player_def well_formed_def)
next
  case (step_print out)
  with assms(1) show ?thesis by (simp add: print_board_def)
qed

lemma reachable_well_formed: "reachable g \<Longrightarrow> well_formed g"
  by (induction rule: reachable.induct) (auto intro: well_formed_init well_formed_step)

section \<open>The claims\<close>

text \<open>
  C1. \<^verbatim>\<open>check_winner\<close> goes through the axes \<open>(1,0)\<close>, \<open>(0,1)\<close>, \<open>(1,1)\<close>, \<open>(1,-1)\<close> in
  this order. On a well-formed game the count of every axis is one for the cell
  \<open>(row, col)\<close> plus the run of cells holding the current player's marker on the positive
  side plus the run on the negative side, each run ending at the first cell that is off
  the board or does not match; the result is a win for the current player exactly when
  the count of some axis is at least five. The call returns at the first axis that
  qualifies: once an axis counts five or more and the axes before it counted less, the
  result is the win, whatever the later axes would do. This holds for every \<open>(row, col)\<close>,
  so in particular for the cell where the stone was just placed.
\<close>

theorem check_winner_axes:
  assumes "PLAYER_STONES (current_player g) = Some stone"
  shows "directions = [(1, 0), (0, 1), (1, 1), (1, - 1)] \<and>
    (well_formed g \<longrightarrow>
      (\<forall>(dr, dc) \<in> set directions. \<exists>p q.
          run_of g stone row col dr dc p \<and> run_of g stone row col (- dr) (- dc) q \<and>
          count g stone row col dr dc = Some (Inr (1 + int p + int q))) \<and>
      (\<exists>res. check_winner g row col = Some (Inr (res, g)) \<and>
         (res = Win (current_player g)) =
           (\<exists>(dr, dc) \<in> set directions. \<exists>t. 5 \<le> t \<and> count g stone row col dr dc = Some (Inr t)))) \<and>
    (\<forall>i < length directions.
        (\<exists>t. 5 \<le> t \<and>
           count g stone row col (fst (directions ! i)) (snd (directions ! i)) = Some (Inr t)) \<and>
        (\<forall>j < i. \<exists>t. t < 5 \<and>
           count g stone row col (fst (directions ! j)) (snd (directions ! j)) = Some (Inr t)) \<longrightarrow>
        check_winner g row col = Some (Inr (Win (current_player g), g)))"
proof (intro conjI impI allI)
  show "directions = [(1, 0), (0, 1), (1, 1), (1, - 1)]" by (simp add: directions_def)
next
  assume wf: "well_formed g"
  show "\<forall>(dr, dc) \<in> set directions. \<exists>p q.
          run_of g stone row col dr dc p \<and> run_of g stone row col (- dr) (- dc) q \<and>
          count g stone row col dr dc = Some (Inr (1 + int p + int q))"
  proof (clarify)
    fix dr dc :: int assume "(dr, dc) \<in> set directions"
    then have "dr \<noteq> 0 \<or> dc \<noteq> 0" using directions_nonzero by blast
    from count_axis_total [OF wf this, of stone row col]
    show "\<exists>p q. run_of g stone row col dr dc p \<and> run_of g stone row col (- dr) (- dc) q \<and>
          count g stone row col dr dc = Some (Inr (1 + int p + int q))"
      unfolding axis_total_def by blast
  qed
next
  assume wf: "well_formed g"
  have eq: "(\<exists>(dr, dc) \<in> set directions. \<exists>t. 5 \<le> t \<and> count g stone row col dr dc = Some (Inr t))
      = five_on_some_axis g stone row col"
  proof -
    have "(\<exists>t. 5 \<le> t \<and> count g stone row col dr dc = Some (Inr t)) =
          (\<exists>t. 5 \<le> t \<and> axis_total g stone row col dr dc t)"
      if "(dr, dc) \<in> set directions" for dr dc
    proof -
      from that have "dr \<noteq> 0 \<or> dc \<noteq> 0" using directions_nonzero by blast
      from count_iff_axis_total [OF wf this] show ?thesis by simp
    qed
    then show ?thesis
      unfolding five_on_some_axis_def by blast
  qed
  have "Draw \<noteq> Win (current_player g)" "Ongoing \<noteq> Win (current_player g)"
    by (simp_all add: Draw_def Ongoing_def Win_def)
  with check_winner_well_formed [OF wf assms, of row col] eq
  show "\<exists>res. check_winner g row col = Some (Inr (res, g)) \<and>
         (res = Win (current_player g)) =
           (\<exists>(dr, dc) \<in> set directions. \<exists>t. 5 \<le> t \<and> count g stone row col dr dc = Some (Inr t))"
    by auto
next
  fix i
  assume "i < length directions"
    "(\<exists>t. 5 \<le> t \<and>
           count g stone row col (fst (directions ! i)) (snd (directions ! i)) = Some (Inr t)) \<and>
        (\<forall>j < i. \<exists>t. t < 5 \<and>
           count g stone row col (fst (directions ! j)) (snd (directions ! j)) = Some (Inr t))"
  with assms show "check_winner g row col = Some (Inr (Win (current_player g), g))"
    using check_winner_first_axis by blast
qed

theorem check_winner_axes_witness:
  "PLAYER_STONES (current_player crossing_game) = Some ''X'' \<and> well_formed crossing_game \<and>
   (\<exists>p q. run_of crossing_game ''X'' 2 2 0 1 p \<and> run_of crossing_game ''X'' 2 2 0 (- 1) q \<and>
      count crossing_game ''X'' 2 2 0 1 = Some (Inr (1 + int p + int q))) \<and>
   PLAYER_STONES (current_player row_five) = Some ''X'' \<and>
   count row_five ''X'' 0 2 1 0 = Some (Inr 1) \<and> count row_five ''X'' 0 2 0 1 = Some (Inr 5) \<and>
   check_winner row_five 0 2 = Some (Inr (Win ''black'', row_five))"
proof -
  have st: "PLAYER_STONES (current_player crossing_game) = Some ''X''" by code_simp
  have wf: "well_formed crossing_game" by code_simp
  from check_winner_axes [OF st, of 2 2] wf
  have "\<forall>(dr, dc) \<in> set directions. \<exists>p q.
          run_of crossing_game ''X'' 2 2 dr dc p \<and> run_of crossing_game ''X'' 2 2 (- dr) (- dc) q \<and>
          count crossing_game ''X'' 2 2 dr dc = Some (Inr (1 + int p + int q))"
    by blast
  moreover have "(0, 1) \<in> set directions" by (simp add: directions_def)
  ultimately have runs: "\<exists>p q. run_of crossing_game ''X'' 2 2 0 1 p \<and>
      run_of crossing_game ''X'' 2 2 (- 0) (- 1) q \<and>
      count crossing_game ''X'' 2 2 0 1 = Some (Inr (1 + int p + int q))"
    by fast
  have st5: "PLAYER_STONES (current_player row_five) = Some ''X''" by code_simp
  have c0: "count row_five ''X'' 0 2 1 0 = Some (Inr 1)"
    and c1: "count row_five ''X'' 0 2 0 1 = Some (Inr 5)" by code_simp+
  have d: "directions ! 0 = (1, 0)" "directions ! 1 = (0, 1)" "1 < length directions"
    by (simp_all add: directions_def)
  have hit: "\<exists>t. 5 \<le> t \<and>
      count row_five ''X'' 0 2 (fst (directions ! 1)) (snd (directions ! 1)) = Some (Inr t)"
    using c1 d by simp
  have before: "\<forall>j < 1. \<exists>t. t < 5 \<and>
      count row_five ''X'' 0 2 (fst (directions ! j)) (snd (directions ! j)) = Some (Inr t)"
    using c0 d by simp
  from check_winner_axes [OF st5, of 0 2] d(3) hit before
  have "check_winner row_five 0 2 = Some (Inr (Win (current_player row_five), row_five))"
    by blast
  then have "check_winner row_five 0 2 = Some (Inr (Win ''black'', row_five))"
    by (simp add: row_five_def)
  with st wf runs st5 c0 c1 show ?thesis by simp
qed

text \<open>
  C2. On a well-formed game \<^verbatim>\<open>place_stone\<close> returns \<open>False\<close> exactly when the coordinate
  is outside the board or, being on the board, names a cell that is not empty. In both
  cases the game is returned as it was (board, counter and player to move), and the notice
  printed is the out-of-range one or the occupied one accordingly. The calls at
  \<open>(-1, 0)\<close>, \<open>(N, 0)\<close> and \<open>(0, N)\<close> fail in this way.
\<close>

theorem place_stone_failure:
  assumes "well_formed g"
  shows "(\<exists>ok out g'. place_stone g row col = Inr (ok, out, g') \<and>
            (\<not> ok) = (\<not> in_bounds g row col \<or>
                        in_bounds g row col \<and> cell_at g row col \<noteq> Inr EMPTY) \<and>
            (\<not> ok \<longrightarrow> g' = g \<and>
               out = [if in_bounds g row col then OccupiedNotice else OutOfRangeNotice])) \<and>
         place_stone g (- 1) 0 = Inr (False, [OutOfRangeNotice], g) \<and>
         place_stone g (size_n g) 0 = Inr (False, [OutOfRangeNotice], g) \<and>
         place_stone g 0 (size_n g) = Inr (False, [OutOfRangeNotice], g)"
proof (intro conjI)
  show "\<exists>ok out g'. place_stone g row col = Inr (ok, out, g') \<and>
            (\<not> ok) = (\<not> in_bounds g row col \<or>
                        in_bounds g row col \<and> cell_at g row col \<noteq> Inr EMPTY) \<and>
            (\<not> ok \<longrightarrow> g' = g \<and>
               out = [if in_bounds g row col then OccupiedNotice else OutOfRangeNotice])"
  proof (cases "in_bounds g row col")
    case False
    then show ?thesis by (auto simp: place_stone_out_of_bounds)
  next
    case inb: True
    show ?thesis
    proof (cases "cell_at g row col = Inr EMPTY")
      case False
      with assms inb show ?thesis by (auto simp: place_stone_occupied)
    next
      case True
      from assms obtain stone where "PLAYER_STONES (current_player g) = Some stone"
        by (rule player_stone)
      with inb True show ?thesis by (auto simp: place_stone_empty)
    qed
  qed
qed (simp_all add: place_stone_out_of_bounds in_bounds_def)

theorem place_stone_failure_witness:
  "well_formed first_move \<and>
   place_stone first_move 0 0 = Inr (False, [OccupiedNotice], first_move) \<and>
   place_stone first_move 3 0 = Inr (False, [OutOfRangeNotice], first_move)"
proof -
  have wf: "well_formed first_move" by code_simp
  have "place_stone first_move 0 0 = Inr (False, [OccupiedNotice], first_move)" by code_simp
  moreover from place_stone_failure [OF wf, of 0 0]
  have "place_stone first_move (size_n first_move) 0 = Inr (False, [OutOfRangeNotice], first_move)"
    by blast
  then have "place_stone first_move 3 0 = Inr (False, [OutOfRangeNotice], first_move)"
    by (simp add: first_move_def)
  ultimately show ?thesis using wf by simp
qed

text \<open>
  C3. On a well-formed game, a placement on an empty cell of the board succeeds: the cell
  holds the current player's marker afterwards, every other cell of the board is as
  before, the counter has grown by one, and the player to move is the same.
\<close>

theorem place_stone_success:
  assumes "well_formed g" "in_bounds g row col" "cell_at g row col = Inr EMPTY"
  shows "\<exists>stone g'. PLAYER_STONES (current_player g) = Some stone \<and>
           place_stone g row col = Inr (True, [], g') \<and>
           cell_at g' row col = Inr stone \<and>
           (\<forall>r c. in_bounds g r c \<and> (r, c) \<noteq> (row, col) \<longrightarrow> cell_at g' r c = cell_at g r c) \<and>
           moves_played g' = moves_played g + 1 \<and>
           current_player g' = current_player g \<and>
           size_n g' = size_n g \<and> well_formed g'"
proof -
  from assms(1) obtain stone where st: "PLAYER_STONES (current_player g) = Some stone"
    by (rule player_stone)
  define g' where "g' = (set_cell g row col stone)\<lparr>moves_played := moves_played g + 1\<rparr>"
  have cell: "cell_at g' r c = cell_at (set_cell g row col stone) r c" for r c
    by (simp add: g'_def cell_at_def)
  have "place_stone g row col = Inr (True, [], g')"
    unfolding g'_def using assms(2,3) st by (rule place_stone_empty)
  moreover have "cell_at g' row col = Inr stone"
    using cell_at_set_cell [OF assms(1,2,2)] by (simp add: cell)
  moreover have "\<forall>r c. in_bounds g r c \<and> (r, c) \<noteq> (row, col) \<longrightarrow> cell_at g' r c = cell_at g r c"
    using cell_at_set_cell [OF assms(1,2)] by (simp add: cell)
  moreover have "moves_played g' = moves_played g + 1" "current_player g' = current_player g"
    "size_n g' = size_n g"
    by (simp_all add: g'_def set_cell_def)
  moreover have "well_formed g'"
    using well_formed_set_cell [OF assms(1), of row col stone]
    by (simp add: g'_def well_formed_def)
  ultimately show ?thesis using st by blast
qed

theorem place_stone_success_witness:
  "well_formed crossing_before \<and> in_bounds crossing_before 2 2 \<and>
   cell_at crossing_before 2 2 = Inr EMPTY \<and>
   place_stone crossing_before 2 2 = Inr (True, [], crossing_game) \<and>
   (\<exists>g'. place_stone crossing_before 2 2 = Inr (True, [], g') \<and>
      moves_played g' = moves_played crossing_before + 1)"
proof -
  have h: "well_formed crossing_before" "in_bounds crossing_before 2 2"
    "cell_at crossing_before 2 2 = Inr EMPTY"
    by code_simp+
  have "place_stone crossing_before 2 2 = Inr (True, [], crossing_game)" by code_simp
  moreover from place_stone_success [OF h]
  have "\<exists>g'. place_stone crossing_before 2 2 = Inr (True, [], g') \<and>
      moves_played g' = moves_played crossing_before + 1"
    by blast
  ultimately show ?thesis using h by simp
qed

text \<open>
  C4. The counter \<open>moves_played\<close> equals the number of cells that are not empty: this
  holds of the game built by the constructor, for every size; every call of an engine
  operation that returns (\<^verbatim>\<open>place_stone\<close> with either result, \<^verbatim>\<open>check_winner\<close>,
  \<^verbatim>\<open>switch_player\<close>, \<^verbatim>\<open>print_board\<close>) keeps it; so it holds of every game reached from
  a new game by such calls.
\<close>

theorem occupancy_invariant:
  "(\<forall>sz. occupancy_inv (GomokuGame_init sz)) \<and>
   (\<forall>g g'. occupancy_inv g \<and> engine_step g g' \<longrightarrow> occupancy_inv g') \<and>
   (\<forall>g. reachable g \<longrightarrow> occupancy_inv g)"
proof (intro conjI allI impI)
  fix g assume "reachable g"
  then show "occupancy_inv g"
    by (induction rule: reachable.induct) (auto intro: occupancy_init occupancy_step)
qed (auto intro: occupancy_init occupancy_step)

theorem occupancy_invariant_witness:
  "reachable first_move \<and> occupancy_inv first_move \<and> occupied_count first_move = 1"
proof -
  have "place_stone (GomokuGame_init 3) 0 0 = Inr (True, [], first_move)" by code_simp
  then have "engine_step (GomokuGame_init 3) first_move" by (rule step_place)
  with reach_init have r: "reachable first_move" by (rule reach_step)
  moreover from occupancy_invariant r have "occupancy_inv first_move" by blast
  moreover have "occupied_count first_move = 1" by code_simp
  ultimately show ?thesis by simp
qed

text \<open>
  C5. On a well-formed game, when no axis through \<open>(row, col)\<close> totals five or more cells of
  the current player's marker, \<^verbatim>\<open>check_winner\<close> returns the draw if \<open>moves_played\<close> equals
  \<open>N * N\<close> and the ongoing result otherwise. When some axis does total five, the result is
  the win also on the move that fills the board. Where the counter equals the number of
  occupied cells, \<open>moves_played = N * N\<close> says that no cell of the board is empty.
\<close>

theorem check_winner_draw_ongoing:
  assumes "well_formed g" "PLAYER_STONES (current_player g) = Some stone"
  shows "(\<not> five_on_some_axis g stone row col \<longrightarrow>
            check_winner g row col =
              Some (Inr (if moves_played g = size_n g * size_n g then Draw else Ongoing, g))) \<and>
         (five_on_some_axis g stone row col \<and> moves_played g = size_n g * size_n g \<longrightarrow>
            check_winner g row col = Some (Inr (Win (current_player g), g))) \<and>
         (occupancy_inv g \<and> 0 \<le> size_n g \<longrightarrow>
            (moves_played g = size_n g * size_n g) =
              (\<forall>r c. in_bounds g r c \<longrightarrow> cell_at g r c \<noteq> Inr EMPTY))"
proof (intro conjI impI)
  assume "\<not> five_on_some_axis g stone row col"
  with check_winner_well_formed [OF assms, of row col]
  show "check_winner g row col =
      Some (Inr (if moves_played g = size_n g * size_n g then Draw else Ongoing, g))"
    by simp
next
  assume "five_on_some_axis g stone row col \<and> moves_played g = size_n g * size_n g"
  with check_winner_well_formed [OF assms, of row col]
  show "check_winner g row col = Some (Inr (Win (current_player g), g))"
    by simp
next
  assume "occupancy_inv g \<and> 0 \<le> size_n g"
  then have "occupancy_inv g" "0 \<le> size_n g" by simp_all
  with assms(1) show "(moves_played g = size_n g * size_n g) =
      (\<forall>r c. in_bounds g r c \<longrightarrow> cell_at g r c \<noteq> Inr EMPTY)"
    by (rule full_board_iff)
qed

theorem check_winner_draw_ongoing_witness:
  "well_formed first_move \<and> PLAYER_STONES (current_player first_move) = Some ''X'' \<and>
   \<not> five_on_some_axis first_move ''X'' 0 0 \<and>
   check_winner first_move 0 0 = Some (Inr (Ongoing, first_move)) \<and>
   well_formed full_board \<and> PLAYER_STONES (current_player full_board) = Some ''X'' \<and>
   \<not> five_on_some_axis full_board ''X'' 2 2 \<and>
   check_winner full_board 2 2 = Some (Inr (Draw, full_board)) \<and>
   occupancy_inv full_board \<and>
   in_bounds full_board 1 1 \<and> cell_at full_board 1 1 \<noteq> Inr EMPTY \<and>
   well_formed full_win \<and> PLAYER_STONES (current_player full_win) = Some ''X'' \<and>
   five_on_some_axis full_win ''X'' 0 2 \<and> moves_played full_win = size_n full_win * size_n full_win \<and>
   check_winner full_win 0 2 = Some (Inr (Win ''black'', full_win))"
proof -
  have wf: "well_formed first_move" "well_formed full_board" "well_formed full_win"
    by code_simp+
  have st: "PLAYER_STONES (current_player first_move) = Some ''X''"
    "PLAYER_STONES (current_player full_board) = Some ''X''"
    "PLAYER_STONES (current_player full_win) = Some ''X''" by code_simp+
  have "first_win first_move ''X'' 0 0 directions = Some (Inr False)" by code_simp
  with first_win_list [OF wf(1) directions_nonzero, of "''X''" 0 0]
  have n1: "\<not> five_on_some_axis first_move ''X'' 0 0"
    by (simp add: five_on_some_axis_def)
  have "first_win full_board ''X'' 2 2 directions = Some (Inr False)" by code_simp
  with first_win_list [OF wf(2) directions_nonzero, of "''X''" 2 2]
  have n2: "\<not> five_on_some_axis full_board ''X'' 2 2"
    by (simp add: five_on_some_axis_def)
  have "first_win full_win ''X'' 0 2 directions = Some (Inr True)" by code_simp
  with first_win_list [OF wf(3) directions_nonzero, of "''X''" 0 2]
  have y3: "five_on_some_axis full_win ''X'' 0 2"
    by (simp add: five_on_some_axis_def)
  have full: "moves_played full_win = size_n full_win * size_n full_win"
    by (simp add: full_win_def)
  have inv: "occupancy_inv full_board" "0 \<le> size_n full_board" by code_simp+
  from check_winner_draw_ongoing [OF wf(1) st(1), of 0 0] n1
  have "check_winner first_move 0 0 =
      Some (Inr (if moves_played first_move = size_n first_move * size_n first_move
                 then Draw else Ongoing, first_move))"
    by blast
  then have c1: "check_winner first_move 0 0 = Some (Inr (Ongoing, first_move))"
    by (simp add: first_move_def)
  from check_winner_draw_ongoing [OF wf(2) st(2), of 2 2] n2
  have "check_winner full_board 2 2 =
      Some (Inr (if moves_played full_board = size_n full_board * size_n full_board
                 then Draw else Ongoing, full_board))"
    by blast
  then have c2: "check_winner full_board 2 2 = Some (Inr (Draw, full_board))"
    by (simp add: full_board_def)
  from check_winner_draw_ongoing [OF wf(2) st(2), of 2 2] inv
  have "(moves_played full_board = size_n full_board * size_n full_board) =
      (\<forall>r c. in_bounds full_board r c \<longrightarrow> cell_at full_board r c \<noteq> Inr EMPTY)"
    by blast
  then have "\<forall>r c. in_bounds full_board r c \<longrightarrow> cell_at full_board r c \<noteq> Inr EMPTY"
    by (simp add: full_board_def)
  moreover have "in_bounds full_board 1 1" by code_simp
  ultimately have c3: "in_bounds full_board 1 1 \<and> cell_at full_board 1 1 \<noteq> Inr EMPTY"
    by blast
  from check_winner_draw_ongoing [OF wf(3) st(3), of 0 2] y3 full
  have "check_winner full_win 0 2 = Some (Inr (Win (current_player full_win), full_win))"
    by blast
  then have c4: "check_winner full_win 0 2 = Some (Inr (Win ''black'', full_win))"
    by (simp add: full_win_def)
  from wf st n1 n2 y3 full inv(1) c1 c2 c3 c4 show ?thesis by simp
qed

text \<open>
  C6. \<^verbatim>\<open>check_winner\<close> has no side effect: whenever it returns, the game it leaves is the
  game it was given (board, counter, player to move and size), and on a well-formed game
  it does return.
\<close>

theorem check_winner_pure:
  "(\<forall>res g'. check_winner g row col = Some (Inr (res, g')) \<longrightarrow> g' = g) \<and>
   (well_formed g \<longrightarrow> (\<exists>res. check_winner g row col = Some (Inr (res, g))))"
proof (intro conjI allI impI)
  fix res g' assume "check_winner g row col = Some (Inr (res, g'))"
  then show "g' = g"
    by (auto simp: check_winner_def split: option.splits sum.splits bool.splits if_splits)
next
  assume wf: "well_formed g"
  then obtain stone where "PLAYER_STONES (current_player g) = Some stone"
    by (rule player_stone)
  from check_winner_well_formed [OF wf this, of row col]
  show "\<exists>res. check_winner g row col = Some (Inr (res, g))" by blast
qed

theorem check_winner_pure_witness:
  "well_formed first_move \<and> (\<exists>res. check_winner first_move 0 0 = Some (Inr (res, first_move)))"
proof -
  have wf: "well_formed first_move" by code_simp
  with check_winner_pure [of first_move 0 0] show ?thesis by blast
qed

text \<open>
  C7. A row of four closed at both ends does not exclude a win: Black's stone at \<open>(2, 2)\<close>
  is the fourth of a row between the left edge and a white stone, and the call that
  follows returns the win, because the column through the same cell holds five.
\<close>

theorem blocked_four_counterexample:
  "place_stone crossing_before 2 2 = Inr (True, [], crossing_game) \<and>
   cell_at crossing_game 2 0 = Inr ''X'' \<and> cell_at crossing_game 2 1 = Inr ''X'' \<and>
   cell_at crossing_game 2 2 = Inr ''X'' \<and> cell_at crossing_game 2 3 = Inr ''X'' \<and>
   \<not> in_bounds crossing_game 2 (- 1) \<and> cell_at crossing_game 2 4 = Inr ''O'' \<and>
   count crossing_game ''X'' 2 2 0 1 = Some (Inr 4) \<and>
   check_winner crossing_game 2 2 = Some (Inr (Win ''black'', crossing_game))"
  by code_simp

text \<open>
  C7, as amended. When the cell \<open>(row, col)\<close> lies in a line of exactly four cells of the
  current player's marker along an axis (\<open>a\<close> on the positive side, \<open>b\<close> on the
  negative side, the cell itself, \<open>a + b = 3\<close>) and the cell beyond each end is off the
  board or does not hold that marker, the count of this axis is four, so this axis gives
  no win; \<^verbatim>\<open>check_winner\<close> returns the win exactly when one of the other three axes
  through the cell totals at least five.
\<close>

theorem blocked_four_axis:
  assumes wf: "well_formed g" and st: "PLAYER_STONES (current_player g) = Some stone"
    and d: "(dr, dc) \<in> set directions"
    and a: "run_of g stone row col dr dc a" and b: "run_of g stone row col (- dr) (- dc) b"
    and four: "a + b = 3"
  shows "count g stone row col dr dc = Some (Inr 4) \<and>
         (check_winner g row col = Some (Inr (Win (current_player g), g))) =
           (\<exists>(dr', dc') \<in> set directions. (dr', dc') \<noteq> (dr, dc) \<and>
              (\<exists>t. 5 \<le> t \<and> axis_total g stone row col dr' dc' t))"
proof -
  from a b four have tot: "axis_total g stone row col dr dc 4"
    unfolding axis_total_def by (intro exI [of _ a] exI [of _ b]) simp
  from d have nz: "dr \<noteq> 0 \<or> dc \<noteq> 0" using directions_nonzero by blast
  have cnt: "count g stone row col dr dc = Some (Inr 4)"
    using tot by (simp add: count_iff_axis_total [OF wf nz])
  have none: "\<not> (\<exists>t. 5 \<le> t \<and> axis_total g stone row col dr dc t)"
    using axis_total_unique [OF tot] by fastforce
  have other: "five_on_some_axis g stone row col =
      (\<exists>(dr', dc') \<in> set directions. (dr', dc') \<noteq> (dr, dc) \<and>
         (\<exists>t. 5 \<le> t \<and> axis_total g stone row col dr' dc' t))"
  proof
    assume "five_on_some_axis g stone row col"
    then obtain dr' dc' t where
      t: "(dr', dc') \<in> set directions" "5 \<le> t" "axis_total g stone row col dr' dc' t"
      unfolding five_on_some_axis_def by auto
    with none have "(dr', dc') \<noteq> (dr, dc)" by auto
    with t show "\<exists>(dr', dc') \<in> set directions. (dr', dc') \<noteq> (dr, dc) \<and>
         (\<exists>t. 5 \<le> t \<and> axis_total g stone row col dr' dc' t)"
      by (intro bexI [of _ "(dr', dc')"]) auto
  next
    assume "\<exists>(dr', dc') \<in> set directions. (dr', dc') \<noteq> (dr, dc) \<and>
         (\<exists>t. 5 \<le> t \<and> axis_total g stone row col dr' dc' t)"
    then show "five_on_some_axis g stone row col"
      unfolding five_on_some_axis_def by auto
  qed
  have "(check_winner g row col = Some (Inr (Win (current_player g), g))) =
      five_on_some_axis g stone row col"
    using check_winner_well_formed [OF wf st, of row col] by (simp add: Win_neq)
  with cnt other show ?thesis by simp
qed

theorem blocked_four_axis_witness:
  "well_formed crossing_game \<and> PLAYER_STONES (current_player crossing_game) = Some ''X'' \<and>
   (0, 1) \<in> set directions \<and> run_of crossing_game ''X'' 2 2 0 1 1 \<and>
   run_of crossing_game ''X'' 2 2 0 (- 1) 2 \<and>
   count crossing_game ''X'' 2 2 0 1 = Some (Inr 4)"
proof -
  have h: "well_formed crossing_game" "PLAYER_STONES (current_player crossing_game) = Some ''X''"
    "(0, 1) \<in> set directions" "run_of crossing_game ''X'' 2 2 0 1 1"
    "run_of crossing_game ''X'' 2 2 (- 0) (- 1) 2" "(1::nat) + 2 = 3"
    by code_simp+
  from blocked_four_axis [OF h] h show ?thesis by simp
qed

text \<open>
  C8. The value returned by a failed placement does not carry the reason: \<^verbatim>\<open>place_stone\<close>
  returns the same \<open>False\<close> for a coordinate off the board and for an occupied cell.
\<close>

theorem place_stone_returns_bool_counterexample:
  "\<not> in_bounds first_move (- 1) 0 \<and> in_bounds first_move 0 0 \<and>
   cell_at first_move 0 0 = Inr ''X'' \<and>
   returned (place_stone first_move (- 1) 0) = Inr False \<and>
   returned (place_stone first_move 0 0) = Inr False"
  by code_simp

text \<open>
  C8, as amended. A failed placement returns \<open>False\<close> and leaves the game as it was; the
  reason is told apart only by the notice printed, which is the out-of-range notice exactly
  when the coordinate is off the board and the occupied notice otherwise.
\<close>

theorem place_stone_reason_printed:
  assumes "well_formed g"
  shows "(\<not> in_bounds g row col \<longrightarrow>
            place_stone g row col = Inr (False, [OutOfRangeNotice], g)) \<and>
         (in_bounds g row col \<and> cell_at g row col \<noteq> Inr EMPTY \<longrightarrow>
            place_stone g row col = Inr (False, [OccupiedNotice], g)) \<and>
         (\<forall>out g'. place_stone g row col = Inr (False, out, g') \<longrightarrow>
            returned (place_stone g row col) = Inr False \<and>
            (out = [OutOfRangeNotice] \<or> out = [OccupiedNotice]) \<and>
            (out = [OutOfRangeNotice]) = (\<not> in_bounds g row col))"
proof (intro conjI impI allI)
  fix out g' assume f: "place_stone g row col = Inr (False, out, g')"
  then show "returned (place_stone g row col) = Inr False"
    by (simp add: returned_def)
  show "out = [OutOfRangeNotice] \<or> out = [OccupiedNotice]"
    using f by (auto simp: place_stone_def split: if_splits sum.splits option.splits)
  show "(out = [OutOfRangeNotice]) = (\<not> in_bounds g row col)"
    using f by (auto simp: place_stone_def in_bounds_def split: if_splits sum.splits option.splits)
qed (simp_all add: place_stone_out_of_bounds place_stone_occupied assms)

theorem place_stone_reason_printed_witness:
  "well_formed first_move \<and>
   place_stone first_move (- 1) 0 = Inr (False, [OutOfRangeNotice], first_move) \<and>
   place_stone first_move 0 0 = Inr (False, [OccupiedNotice], first_move)"
proof -
  have wf: "well_formed first_move" by code_simp
  have "\<not> in_bounds first_move (- 1) 0" "in_bounds first_move 0 0 \<and> cell_at first_move 0 0 \<noteq> Inr EMPTY"
    by code_simp+
  with place_stone_reason_printed [OF wf, of "- 1" 0] place_stone_reason_printed [OF wf, of 0 0] wf
  show ?thesis by blast
qed

text \<open>
  C9. For a coordinate off the board the count of an axis need not be one: from
  \<open>(-1, 2)\<close>, just above a column of five black stones, the vertical count is six and the
  result is the win.
\<close>

theorem out_of_bounds_count_counterexample:
  "\<not> in_bounds crossing_game (- 1) 2 \<and>
   count crossing_game ''X'' (- 1) 2 1 0 = Some (Inr 6) \<and>
   check_winner crossing_game (- 1) 2 = Some (Inr (Win ''black'', crossing_game))"
  by code_simp

text \<open>
  C9, as amended. On a well-formed game \<^verbatim>\<open>check_winner\<close> returns a result for all integers
  \<open>row\<close> and \<open>col\<close>, with no \<^verbatim>\<open>IndexError\<close>, and every axis count is at least one. The
  count of every axis is exactly one when \<open>(row, col)\<close> is two or more cells outside the
  board, that is \<open>row < -1\<close>, \<open>row > N\<close>, \<open>col < -1\<close> or \<open>col > N\<close>.
\<close>

theorem check_winner_total:
  assumes "well_formed g"
  shows "(\<exists>res. check_winner g row col = Some (Inr (res, g))) \<and>
         (\<forall>(dr, dc) \<in> set directions. \<exists>t. 1 \<le> t \<and> count g stone row col dr dc = Some (Inr t)) \<and>
         (row < - 1 \<or> size_n g < row \<or> col < - 1 \<or> size_n g < col \<longrightarrow>
            (\<forall>(dr, dc) \<in> set directions. count g stone row col dr dc = Some (Inr 1)))"
proof (intro conjI impI)
  from assms obtain st where "PLAYER_STONES (current_player g) = Some st"
    by (rule player_stone)
  from check_winner_well_formed [OF assms this, of row col]
  show "\<exists>res. check_winner g row col = Some (Inr (res, g))" by blast
next
  show "\<forall>(dr, dc) \<in> set directions. \<exists>t. 1 \<le> t \<and> count g stone row col dr dc = Some (Inr t)"
  proof (clarify)
    fix dr dc :: int assume "(dr, dc) \<in> set directions"
    then have "dr \<noteq> 0 \<or> dc \<noteq> 0" using directions_nonzero by blast
    from count_axis_total [OF assms this, of stone row col]
    show "\<exists>t. 1 \<le> t \<and> count g stone row col dr dc = Some (Inr t)"
      unfolding axis_total_def by auto
  qed
next
  assume far: "row < - 1 \<or> size_n g < row \<or> col < - 1 \<or> size_n g < col"
  show "\<forall>(dr, dc) \<in> set directions. count g stone row col dr dc = Some (Inr 1)"
  proof (clarify)
    fix dr dc :: int assume d: "(dr, dc) \<in> set directions"
    then have nz: "dr \<noteq> 0 \<or> dc \<noteq> 0" using directions_nonzero by blast
    from far_outside_no_match [OF far d, of stone]
    have "run_of g stone row col dr dc 0" "run_of g stone row col (- dr) (- dc) 0"
      by (simp_all add: run_of_def)
    then have "axis_total g stone row col dr dc 1"
      unfolding axis_total_def by (intro exI [of _ 0]) simp
    then show "count g stone row col dr dc = Some (Inr 1)"
      by (simp add: count_iff_axis_total [OF assms nz])
  qed
qed

theorem check_winner_total_witness:
  "well_formed crossing_game \<and>
   (\<exists>res. check_winner crossing_game (- 1) 2 = Some (Inr (res, crossing_game))) \<and>
   count crossing_game ''X'' (- 2) 2 1 0 = Some (Inr 1)"
proof -
  have wf: "well_formed crossing_game" by code_simp
  have far: "(- 2 :: int) < - 1 \<or> size_n crossing_game < - 2 \<or> (2::int) < - 1 \<or> size_n crossing_game < 2"
    by simp
  have d: "(1, 0) \<in> set directions" by (simp add: directions_def)
  from check_winner_total [OF wf, of "- 2" 2 "''X''"] far
  have "\<forall>(dr, dc) \<in> set directions. count crossing_game ''X'' (- 2) 2 dr dc = Some (Inr 1)"
    by blast
  with d have "count crossing_game ''X'' (- 2) 2 1 0 = Some (Inr 1)" by fast
  moreover from check_winner_total [OF wf, of "- 1" 2 "''X''"]
  have "\<exists>res. check_winner crossing_game (- 1) 2 = Some (Inr (res, crossing_game))" by blast
  ultimately show ?thesis using wf by simp
qed

text \<open>
  C10. \<^verbatim>\<open>check_winner\<close> does not depend on the content of the cell \<open>(row, col)\<close>: putting
  any value there leaves its result the same. So with four black stones in a row beside
  \<open>(0, 0)\<close> and Black to move, the call at \<open>(0, 0)\<close> returns the win for Black both
  when that cell is empty and when it holds a white stone.
\<close>

theorem check_winner_ignores_cell:
  "(well_formed g \<and> in_bounds g row col \<longrightarrow>
      outcome_of (check_winner (set_cell g row col v) row col) =
      outcome_of (check_winner g row col)) \<and>
   cell_at beside_empty 0 0 = Inr EMPTY \<and>
   check_winner beside_empty 0 0 = Some (Inr (Win ''black'', beside_empty)) \<and>
   cell_at beside_white 0 0 = Inr ''O'' \<and>
   check_winner beside_white 0 0 = Some (Inr (Win ''black'', beside_white)) \<and>
   (\<forall>c \<in> {1, 2, 3, 4}. cell_at beside_empty 0 c = Inr ''X'' \<and> cell_at beside_white 0 c = Inr ''X'')"
proof (intro conjI impI)
  assume "well_formed g \<and> in_bounds g row col"
  then have wf: "well_formed g" and inb: "in_bounds g row col" by simp_all
  from wf obtain stone where st: "PLAYER_STONES (current_player g) = Some stone"
    by (rule player_stone)
  let ?g = "set_cell g row col v"
  have wf': "well_formed ?g" using wf by (rule well_formed_set_cell)
  have st': "PLAYER_STONES (current_player ?g) = Some stone"
    using st by (simp add: set_cell_def)
  have same: "current_player ?g = current_player g" "moves_played ?g = moves_played g"
    "size_n ?g = size_n g"
    by (simp_all add: set_cell_def)
  show "outcome_of (check_winner ?g row col) = outcome_of (check_winner g row col)"
    unfolding check_winner_well_formed [OF wf' st'] check_winner_well_formed [OF wf st]
      five_on_some_axis_set_cell [OF wf inb] same
    by (simp add: outcome_of_def)
qed (code_simp+)

theorem check_winner_ignores_cell_witness:
  "well_formed beside_white \<and> in_bounds beside_white 0 0 \<and>
   set_cell beside_white 0 0 ''X'' \<noteq> beside_white \<and>
   outcome_of (check_winner (set_cell beside_white 0 0 ''X'') 0 0) = Some (Inr (Win ''black''))"
proof -
  have h: "well_formed beside_white \<and> in_bounds beside_white 0 0" by code_simp
  have "outcome_of (check_winner beside_white 0 0) = Some (Inr (Win ''black''))" by code_simp
  moreover have "set_cell beside_white 0 0 ''X'' \<noteq> beside_white" by code_simp
  ultimately show ?thesis
    using check_winner_ignores_cell [of beside_white 0 0 "''X''"] h by simp
qed

end
